theory Spec2Isabelle
  imports Main "HOL-Library.Word"
begin

section \<open>Menu navigation (\<open>_minimal_menu\<close>, \<open>_show_oled_menu\<close>)\<close>

text \<open>
  The menu keeps the selected index \<open>idx\<close> (a local of \<open>_minimal_menu\<close>) and the first
  visible row \<open>current_start_idx\<close> (a function attribute of \<open>_show_oled_menu\<close>, created
  with value 0 on the first call that reaches it). Python integers are \<open>int\<close>; \<open>%\<close> rounds
  like \<open>mod\<close> on \<open>int\<close>. The display is only driven when the OLED is present
  (\<open>oled_display and OLED_AVAILABLE\<close>), which is the field \<open>oled\<close>.
\<close>

record menu_state =
  menu_items :: "string list"
  idx :: int
  current_start_idx :: int
  oled :: bool

definition window_size :: int where
  "window_size = 8"

text \<open>
  \<open>_show_oled_menu(files, idx, header, old_idx)\<close>: the new \<open>current_start_idx\<close> and the flag
  \<open>need_full_redraw\<close>. Nothing changes without a display or with an empty list.
\<close>

definition show_oled_menu :: "bool \<Rightarrow> string list \<Rightarrow> int \<Rightarrow> int option \<Rightarrow> int \<Rightarrow> int \<times> bool" where
  "show_oled_menu has_oled files i old_idx current_start =
     (if \<not> has_oled then (current_start, False)
      else if files = [] then (current_start, False)
      else
        let current_end = current_start + window_size in
        if old_idx = None then (current_start, True)
        else if i < current_start then
          (if i < window_size then (0, True)
           else (max 0 (i - (window_size - 2)), True))
        else if i \<ge> current_end then
          (if i \<ge> int (length files) - window_size
           then (max 0 (int (length files) - window_size), True)
           else (max 0 (i - 1), True))
        else (current_start, False))"

text \<open>\<open>draw(header, old_idx)\<close> of \<open>_minimal_menu\<close>, as far as the window is concerned.\<close>

definition draw :: "menu_state \<Rightarrow> int option \<Rightarrow> menu_state" where
  "draw m old_idx =
     (if menu_items m = [] then m
      else m\<lparr>current_start_idx :=
               fst (show_oled_menu (oled m) (menu_items m) (idx m) old_idx (current_start_idx m))\<rparr>)"

text \<open>The key handlers \<open>w\<close>/\<open>k\<close>/\<open>up\<close> and \<open>s\<close>/\<open>j\<close>/\<open>down\<close>.\<close>

definition navigate_up :: "menu_state \<Rightarrow> menu_state" where
  "navigate_up m =
     (if menu_items m = [] then m
      else let old_idx = idx m in
           draw (m\<lparr>idx := (idx m - 1) mod int (length (menu_items m))\<rparr>) (Some old_idx))"

definition navigate_down :: "menu_state \<Rightarrow> menu_state" where
  "navigate_down m =
     (if menu_items m = [] then m
      else let old_idx = idx m in
           draw (m\<lparr>idx := (idx m + 1) mod int (length (menu_items m))\<rparr>) (Some old_idx))"

datatype direction = Up | Down

fun navigate :: "direction \<Rightarrow> menu_state \<Rightarrow> menu_state" where
  "navigate Up m = navigate_up m"
| "navigate Down m = navigate_down m"

section \<open>The replay engine (\<open>run_playback\<close>)\<close>

subsection \<open>Data\<close>

type_synonym byte = "8 word"

text \<open>
  What the program prints, as far as it tells the ways a session can end apart. The
  argument of \<open>MsgNotReady\<close> is the handshake answer (\<open>None\<close> for the empty read).
\<close>

datatype msg =
    MsgUsage
  | MsgSerialOpenFailed
  | MsgConnected
  | MsgNotReady "byte option"
  | MsgFileOpened nat
  | MsgFileOpenFailed
  | MsgStoppedTimeout int
  | MsgStoppedEOF int
  | MsgProgress int
  | MsgStopFileDetected
  | MsgStoppedUser int
  | MsgUnexpected byte
  | MsgStoppedRequesting int
  | MsgSummary int
  | MsgTransmissionComplete
  | MsgInterruptedByUser
  | MsgDeviceReset
  | MsgResetWarning
  | MsgShutdownComplete

text \<open>
  The effects of the program on its collaborators, in program order: the serial channel
  \<open>ser\<close>, the recording file \<open>f\<close>, the stop file, the child process of the menu, the
  menu display and the console. Delays (\<open>time.sleep\<close>) are not recorded.
\<close>

datatype action =
    SerOpen
  | SerWrite "byte list"
  | SerRead "byte option"
  | SerClose
  | FOpen
  | FRead int "byte list"
  | FClose
  | RemoveStop
  | TouchStop
  | Launch
  | SendSigint
  | Terminate
  | Kill
  | WaitExit
  | Draw
  | Print msg

text \<open>
  The variables of the streaming loop. \<open>timeout_count\<close> is a function attribute created on
  the first timeout (\<open>None\<close> before that); \<open>content\<close> and \<open>pos\<close> are the bytes of the opened
  recording (after decompression for a \<open>bz2\<close> file) and its cursor.
\<close>

record loop_state =
  shutdown_requested :: bool
  timeout_count :: "nat option"
  latches :: int
  extra :: int
  content :: "byte list"
  pos :: nat

text \<open>
  What the environment does during one pass of the loop: the result of \<open>ser.read()\<close>
  (\<open>None\<close> is the empty result of a timeout), whether \<open>signal_handler\<close> ran while the
  program was blocked in that read, and what \<open>os.path.exists(STOP_FILE)\<close> answers if asked.
\<close>

record event =
  rd :: "byte option"
  sig :: bool
  stop_file :: bool

text \<open>The four ways out of the loop: the three \<open>break\<close>s and the loop condition.\<close>

datatype stop = StopTimeout | StopEOF | StopUser | StopFlag

datatype terminal = Completed | Interrupted | DeviceError | FileError | DeviceNotReady

fun session_state :: "stop \<Rightarrow> terminal" where
  "session_state StopEOF = Completed"
| "session_state StopTimeout = DeviceError"
| "session_state StopUser = Interrupted"
| "session_state StopFlag = Interrupted"

subsection \<open>The recording file\<close>

text \<open>\<open>f.read(n)\<close>: at most \<open>n\<close> bytes from the cursor, all the rest for a negative \<open>n\<close>.\<close>

definition fread :: "int \<Rightarrow> loop_state \<Rightarrow> byte list \<times> loop_state" where
  "fread n s =
     (let rest = drop (pos s) (content s);
          got = (if n < 0 then rest else take (nat n) rest)
      in (got, s\<lparr>pos := pos s + length got\<rparr>))"

text \<open>\<open>f.seek(0, 2)\<close>: the cursor goes to the end.\<close>

definition fseek_end :: "loop_state \<Rightarrow> loop_state" where
  "fseek_end s = s\<lparr>pos := length (content s)\<rparr>"

subsection \<open>One pass of the loop\<close>

text \<open>\<open>check_stop_file()\<close>, given the answer of \<open>os.path.exists(STOP_FILE)\<close>.\<close>

definition check_stop_file :: "bool \<Rightarrow> loop_state \<Rightarrow> loop_state \<times> action list" where
  "check_stop_file present s =
     (if present then (s\<lparr>shutdown_requested := True\<rparr>, [Print MsgStopFileDetected, RemoveStop])
      else (s, []))"

definition progress :: "int \<Rightarrow> action list" where
  "progress l = (if l mod 600 = 0 then [Print (MsgProgress l)] else [])"

text \<open>
  The body of \<open>if cmd == b'\x0F'\<close>. The first component says whether the end-of-file
  \<open>break\<close> was taken.
\<close>

definition serve :: "loop_state \<Rightarrow> bool \<times> loop_state \<times> action list" where
  "serve s =
     (if extra s > 0 then
        let n = 60 - extra s * 2;
            (inputs, s1) = fread n s;
            tmp = replicate (nat (extra s * 2)) 0 @ inputs;
            response_data = 0x0F # tmp;
            s2 = s1\<lparr>extra := 0, latches := latches s1 + 30\<rparr>
        in (False, s2, [FRead n inputs, SerWrite response_data] @ progress (latches s2))
      else
        let (inputs, s1) = fread 60 s in
        if inputs = [] then (True, s1, [FRead 60 inputs, Print (MsgStoppedEOF (latches s1))])
        else
          let padded = (if length inputs < 60
                        then inputs @ replicate (60 - length inputs) 0 else inputs);
              response_data = 0x0F # padded;
              s2 = s1\<lparr>latches := latches s1 + 30\<rparr>
          in (False, s2, [FRead 60 inputs, SerWrite response_data] @ progress (latches s2)))"

text \<open>
  The end of a pass in which a byte arrived: the stop file is looked at when \<open>latches\<close>
  is a multiple of 100, then the flag decides.
\<close>

definition poll_cancel :: "byte \<Rightarrow> event \<Rightarrow> loop_state \<Rightarrow> stop option \<times> loop_state \<times> action list" where
  "poll_cancel b e s =
     (let (s1, tr) = (if latches s mod 100 = 0 then check_stop_file (stop_file e) s else (s, []))
      in if shutdown_requested s1 then (Some StopUser, s1, tr @ [Print (MsgStoppedUser (latches s1))])
         else if b \<noteq> 0x0F then (None, s1, tr @ [Print (MsgUnexpected b)])
         else (None, s1, tr))"

text \<open>
  The flag after the blocking read: \<open>signal_handler\<close> may have set it meanwhile.
\<close>

definition flagged :: "loop_state \<Rightarrow> event \<Rightarrow> loop_state" where
  "flagged s e = s\<lparr>shutdown_requested := shutdown_requested s \<or> sig e\<rparr>"

text \<open>
  The counter as the loop reads it: \<open>if not hasattr(run_playback, 'timeout_count')\<close> gives
  the missing attribute the value 0.
\<close>

definition count_of :: "loop_state \<Rightarrow> nat" where
  "count_of s = (case timeout_count s of None \<Rightarrow> 0 | Some k \<Rightarrow> k)"

text \<open>
  One pass of \<open>while not shutdown_requested\<close>, entered with the flag unset. \<open>None\<close> in the
  first component: the loop goes on (\<open>continue\<close> or the end of the body).
\<close>

definition iteration :: "loop_state \<Rightarrow> event \<Rightarrow> stop option \<times> loop_state \<times> action list" where
  "iteration s0 e =
     (let s = flagged s0 e in
      case rd e of
        None \<Rightarrow>
          let c = count_of s + 1;
              s1 = s\<lparr>timeout_count := Some c\<rparr>
          in if c > 10
             then (Some StopTimeout, fseek_end s1, [SerRead None, Print (MsgStoppedTimeout (latches s1))])
             else (None, s1, [SerRead None])
      | Some b \<Rightarrow>
          let s1 = s\<lparr>timeout_count := Some 0\<rparr> in
          if b = 0x0F then
            (case serve s1 of
               (True, s2, tr) \<Rightarrow> (Some StopEOF, s2, SerRead (Some b) # tr)
             | (False, s2, tr) \<Rightarrow>
                 (case poll_cancel b e s2 of (r, s3, tr') \<Rightarrow> (r, s3, SerRead (Some b) # tr @ tr')))
          else
            (case poll_cancel b e s1 of (r, s3, tr') \<Rightarrow> (r, s3, SerRead (Some b) # tr')))"

text \<open>
  The loop over a script of events. When the script ends while the program would block
  in \<open>ser.read()\<close> again, the first component is \<open>None\<close>: the session has not ended.
\<close>

fun run_loop :: "loop_state \<Rightarrow> event list \<Rightarrow> stop option \<times> loop_state \<times> action list" where
  "run_loop s [] = (if shutdown_requested s then (Some StopFlag, s, []) else (None, s, []))"
| "run_loop s (e # es) =
     (if shutdown_requested s then (Some StopFlag, s, [])
      else (case iteration s e of
              (Some r, s1, tr) \<Rightarrow> (Some r, s1, tr)
            | (None, s1, tr) \<Rightarrow>
                (case run_loop s1 es of (r, s2, tr') \<Rightarrow> (r, s2, tr @ tr'))))"

subsection \<open>The device reset (\<open>_reset_cy8ckit_device\<close>)\<close>

text \<open>
  The argument says whether the \<open>try\<close> block runs through; an exception (the port cannot be
  opened) is caught and reported. Each call prints exactly one of the two messages.
\<close>

definition reset_cy8ckit_device :: "bool \<Rightarrow> action list" where
  "reset_cy8ckit_device ok =
     (if ok then [SerOpen, SerWrite [0x00], SerClose, Print MsgDeviceReset]
      else [Print MsgResetWarning])"

definition reset_invocations :: "action list \<Rightarrow> nat" where
  "reset_invocations tr =
     length (filter (\<lambda>a. a = Print MsgDeviceReset \<or> a = Print MsgResetWarning) tr)"

subsection \<open>A whole session\<close>

datatype joy_event = JUp | JDown | JSelect | JStop

text \<open>One poll of the loop that waits for button B after the transmission.\<close>

record wait_event =
  key :: "char option"
  joy :: "joy_event option"
  flag :: bool

fun wait_for_button :: "wait_event list \<Rightarrow> bool" where
  "wait_for_button [] = False"
| "wait_for_button (w # ws) =
     (if joy w = Some JStop \<or> key w \<in> {Some CHR ''q'', Some CHR ''Q'', Some CHR ''b'', Some CHR ''B''}
      then True
      else if flag w then True
      else wait_for_button ws)"

text \<open>
  The environment of one session: whether \<open>serial.Serial\<close> succeeds, the answer to the
  probe, whether a signal set the flag before the loop, the bytes of the recording
  (\<open>None\<close>: opening or sizing it raised), the events of the loop and of the final wait,
  and whether the reset procedure can open the port.
\<close>

record env =
  serial_opens :: bool
  ping_reply :: "byte option"
  sig_early :: bool
  file_open :: "byte list option"
  loop_events :: "event list"
  wait_events :: "wait_event list"
  reset_opens :: bool

text \<open>
  How far the session got: the three early returns (exit codes 1, 2, 2, 3), the return
  at the end (exit code 0, with the way the loop was left), or no return within the
  scripted environment.
\<close>

datatype result =
    Usage
  | SerialFailed
  | NotReady "byte option"
  | FileFailed
  | Ended stop
  | Waiting stop
  | Streaming

fun exit_code :: "result \<Rightarrow> int option" where
  "exit_code Usage = Some 1"
| "exit_code SerialFailed = Some 2"
| "exit_code (NotReady d) = Some 2"
| "exit_code FileFailed = Some 3"
| "exit_code (Ended r) = Some 0"
| "exit_code (Waiting r) = None"
| "exit_code Streaming = None"

definition start_command :: "byte list" where
  "start_command = [0x01, 0x01, 0x02, 0x01, 0x00, 0x01, 0x00]"

definition shutdown_device :: "env \<Rightarrow> action list" where
  "shutdown_device en =
     [SerWrite [0x00], SerClose] @ reset_cy8ckit_device (reset_opens en) @ [Print MsgShutdownComplete]"

text \<open>Everything after the loop: the summary, the cleanup, the wait, the reset.\<close>

definition finish :: "env \<Rightarrow> stop \<Rightarrow> loop_state \<Rightarrow> result \<times> action list" where
  "finish en r s =
     (let tr1 = (if \<not> shutdown_requested s \<and> pos s < length (content s)
                 then [Print (MsgStoppedRequesting (latches s))] else []);
          tr2 = tr1 @ [Print (MsgSummary (latches s)), FClose]
      in if \<not> shutdown_requested s then
           (if wait_for_button (wait_events en)
            then (Ended r, tr2 @ [Print MsgTransmissionComplete] @ shutdown_device en)
            else (Waiting r, tr2 @ [Print MsgTransmissionComplete]))
         else (Ended r, tr2 @ [Print MsgInterruptedByUser] @ shutdown_device en))"

text \<open>
  The variables as they are set before the loop: \<open>latches = 0\<close>, \<open>extra = 0\<close>, the cursor
  at the start of the recording, no \<open>timeout_count\<close> yet (the function runs once per
  process), and the flag as the signal handler left it.
\<close>

definition fresh :: "bool \<Rightarrow> byte list \<Rightarrow> loop_state" where
  "fresh fl bytes = \<lparr>shutdown_requested = fl, timeout_count = None, latches = 0, extra = 0,
                     content = bytes, pos = 0\<rparr>"

text \<open>
  \<open>run_playback(port, movie_path)\<close>. \<open>skip\<close> is the constant 0, so the loop that skips
  frames reads nothing.
\<close>

definition run_playback :: "env \<Rightarrow> string option \<Rightarrow> result \<times> action list" where
  "run_playback en movie_path =
     (if movie_path = None then (Usage, [Print MsgUsage])
      else if \<not> serial_opens en then (SerialFailed, [Print MsgSerialOpenFailed])
      else
        let tr0 = [SerOpen, SerWrite [0xFF], SerRead (ping_reply en)] in
        if ping_reply en \<noteq> Some 0xFF
        then (NotReady (ping_reply en), tr0 @ [Print (MsgNotReady (ping_reply en))])
        else
          case file_open en of
            None \<Rightarrow> (FileFailed, tr0 @ [Print MsgConnected, Print MsgFileOpenFailed])
          | Some bytes \<Rightarrow>
              let tr1 = tr0 @ [Print MsgConnected, FOpen, Print (MsgFileOpened (length bytes)),
                               SerWrite [0x00], SerWrite start_command]
              in (case run_loop (fresh (sig_early en) bytes) (loop_events en) of
                    (None, s, tr) \<Rightarrow> (Streaming, tr1 @ tr)
                  | (Some r, s, tr) \<Rightarrow>
                      (case finish en r s of (res, tr') \<Rightarrow> (res, tr1 @ tr @ tr'))))"

section \<open>The supervisor (\<open>_minimal_menu\<close>, \<open>_launch_playback\<close>)\<close>

text \<open>
  One poll of the loop \<open>while proc.poll() is None\<close>: whether the child has exited, the key
  and joystick event read, and the shutdown flag of the menu process.
\<close>

record mon_event =
  exited :: bool
  mkey :: "char option"
  mjoy :: "joy_event option"
  mflag :: bool

text \<open>
  The loop; \<open>gone\<close> says whether the child has exited by the end of the 50 short waits
  that follow \<open>proc.terminate()\<close>. \<open>None\<close>: the script ends with the child still running.
\<close>

fun monitor :: "bool \<Rightarrow> mon_event list \<Rightarrow> action list option" where
  "monitor gone [] = None"
| "monitor gone (e # es) =
     (if exited e then Some []
      else if mflag e then Some [TouchStop]
      else if mkey e \<noteq> None \<or> mjoy e = Some JStop
      then Some ([TouchStop, SendSigint, Terminate] @ (if gone then [] else [Kill]))
      else monitor gone es)"

record sup_env =
  stale_stop :: bool
  launch_error :: "string option"
  mon_events :: "mon_event list"
  gone_after_terminate :: bool
  wait_ok :: bool
  stop_left :: bool
  sup_reset_opens :: bool

text \<open>
  The part of the \<open>select\<close> branch from \<open>_launch_playback\<close> to the redraw of the menu.
  \<open>_launch_playback\<close> removes a stale stop file, then starts the child; when that fails
  the menu resets the device and goes back to the loop (\<open>continue\<close>).
\<close>

definition play_selected :: "sup_env \<Rightarrow> action list option" where
  "play_selected v =
     (let pre = (if stale_stop v then [RemoveStop] else []) in
      case launch_error v of
        Some err \<Rightarrow> Some (pre @ [Draw] @ reset_cy8ckit_device (sup_reset_opens v) @ [Draw])
      | None \<Rightarrow>
          (case monitor (gone_after_terminate v) (mon_events v) of
             None \<Rightarrow> None
           | Some tr \<Rightarrow>
               Some (pre @ [Launch] @ tr
                     @ (if wait_ok v then [WaitExit] else [WaitExit, Kill])
                     @ (if stop_left v then [RemoveStop] else [])
                     @ [Draw])))"

section \<open>Reading traces\<close>

text \<open>
  A response of the loop is a write to the serial channel; inside the loop nothing else
  is written to it.
\<close>

fun is_response :: "action \<Rightarrow> bool" where
  "is_response (SerWrite w) = True"
| "is_response _ = False"

definition responses :: "action list \<Rightarrow> nat" where
  "responses tr = length (filter is_response tr)"

text \<open>What the loop itself can do: everything else in a trace comes from outside it.\<close>

fun in_loop :: "action \<Rightarrow> bool" where
  "in_loop (SerRead d) = True"
| "in_loop (SerWrite w) = True"
| "in_loop (FRead n c) = True"
| "in_loop RemoveStop = True"
| "in_loop (Print (MsgStoppedTimeout l)) = True"
| "in_loop (Print (MsgStoppedEOF l)) = True"
| "in_loop (Print (MsgProgress l)) = True"
| "in_loop (Print MsgStopFileDetected) = True"
| "in_loop (Print (MsgStoppedUser l)) = True"
| "in_loop (Print (MsgUnexpected b)) = True"
| "in_loop _ = False"

text \<open>Two events for examples: a data request and a silent half second.\<close>

definition request :: event where
  "request = \<lparr>rd = Some 0x0F, sig = False, stop_file = False\<rparr>"

definition silence :: event where
  "silence = \<lparr>rd = None, sig = False, stop_file = False\<rparr>"

text \<open>An event during which the stop file exists.\<close>

definition marked :: "byte option \<Rightarrow> event" where
  "marked d = \<lparr>rd = d, sig = False, stop_file = True\<rparr>"

text \<open>
  With \<open>latches\<close> a multiple of 30: how many more responses until \<open>latches\<close> is a
  multiple of 300, the values at which the check \<open>latches % 100 == 0\<close> succeeds.
\<close>

definition polls_left :: "loop_state \<Rightarrow> int" where
  "polls_left s = 10 - (latches s div 30) mod 10"

section \<open>Properties of the menu\<close>

text \<open>
  C9. A single step up or down over a non-empty list moves the index by one with
  wraparound and moves the window by the paging rule: above the window, the start becomes
  0 for an index among the first 8 items and \<open>max 0 (idx - 6)\<close> otherwise; below the window,
  it becomes \<open>max 0 (count - 8)\<close> for an index among the last 8 items and \<open>max 0 (idx - 1)\<close>
  otherwise; inside the window it stays. Afterwards the index lies in the window.
\<close>

theorem navigate_paging_rule:
  assumes "menu_items m \<noteq> []" and "oled m"
  shows "let n = int (length (menu_items m)); ws = current_start_idx m;
             m' = navigate d m; i = idx m'; ws' = current_start_idx m' in
           i = (case d of Up \<Rightarrow> (idx m - 1) mod n | Down \<Rightarrow> (idx m + 1) mod n) \<and>
           (i < ws \<longrightarrow> ws' = (if i < 8 then 0 else max 0 (i - 6))) \<and>
           (ws + 8 \<le> i \<longrightarrow> ws' = (if n - 8 \<le> i then max 0 (n - 8) else max 0 (i - 1))) \<and>
           (ws \<le> i \<and> i < ws + 8 \<longrightarrow> ws' = ws) \<and>
           ws' \<le> i \<and> i < ws' + 8"
proof -
  define n where "n = int (length (menu_items m))"
  have npos: "0 < n" using assms(1) by (simp add: n_def)
  have up: "0 \<le> (idx m - 1) mod n" "(idx m - 1) mod n < n" using npos by simp_all
  have dn: "0 \<le> (idx m + 1) mod n" "(idx m + 1) mod n < n" using npos by simp_all
  show ?thesis
  proof (cases d)
    case Up
    then show ?thesis using assms up
      by (auto simp: navigate_up_def draw_def show_oled_menu_def window_size_def Let_def
                     n_def[symmetric])
  next
    case Down
    then show ?thesis using assms dn
      by (auto simp: navigate_down_def draw_def show_oled_menu_def window_size_def Let_def
                     n_def[symmetric])
  qed
qed

text \<open>Twenty items, the selection on row 7 of the first page, one step down.\<close>

theorem navigate_paging_rule_witness:
  "menu_items \<lparr>menu_items = replicate 20 ''a.r08'', idx = 7, current_start_idx = 0, oled = True\<rparr> \<noteq> []
   \<and> idx (navigate Down
        \<lparr>menu_items = replicate 20 ''a.r08'', idx = 7, current_start_idx = 0, oled = True\<rparr>) = 8
   \<and> current_start_idx (navigate Down
        \<lparr>menu_items = replicate 20 ''a.r08'', idx = 7, current_start_idx = 0, oled = True\<rparr>) = 7"
  using navigate_paging_rule
    [of "\<lparr>menu_items = replicate 20 ''a.r08'', idx = 7, current_start_idx = 0, oled = True\<rparr>" Down]
  by (simp add: Let_def)

section \<open>The passes of the loop, case by case\<close>

lemma responses_Nil [simp]: "responses [] = 0"
  by (simp add: responses_def)

lemma responses_Cons [simp]: "responses (a # tr) = (if is_response a then 1 else 0) + responses tr"
  by (simp add: responses_def)

lemma responses_append [simp]: "responses (xs @ ys) = responses xs + responses ys"
  by (simp add: responses_def)

lemma responses_progress [simp]: "responses (progress l) = 0"
  by (simp add: responses_def progress_def)

lemma set_progress: "a \<in> set (progress l) \<Longrightarrow> a = Print (MsgProgress l)"
  by (simp add: progress_def split: if_splits)

lemma serve_frame:
  assumes "serve s = (eof, s', tr)"
  shows "timeout_count s' = timeout_count s" "shutdown_requested s' = shutdown_requested s"
        "content s' = content s" "extra s = 0 \<Longrightarrow> extra s' = 0"
  using assms by (auto simp: serve_def fread_def Let_def split: if_splits)

lemma serve_latches:
  assumes "serve s = (eof, s', tr)"
  shows "latches s' = latches s + 30 * int (responses tr)"
  using assms by (auto simp: serve_def fread_def Let_def split: if_splits)

lemma serve_eof:
  assumes "serve s = (eof, s', tr)"
  shows "eof = (FRead 60 [] \<in> set tr)"
  using assms by (auto simp: serve_def fread_def Let_def split: if_splits dest: set_progress)

lemma serve_reads:
  assumes "serve s = (eof, s', tr)" "extra s = 0" "FRead n c \<in> set tr"
  shows "n = 60"
  using assms by (auto simp: serve_def fread_def Let_def split: if_splits dest: set_progress)

lemma poll_cancel_frame:
  assumes "poll_cancel b e s = (r, s', tr)"
  shows "timeout_count s' = timeout_count s" "latches s' = latches s" "extra s' = extra s"
        "content s' = content s" "pos s' = pos s"
  using assms by (auto simp: poll_cancel_def check_stop_file_def Let_def split: if_splits)

lemma poll_cancel_trace:
  assumes "poll_cancel b e s = (r, s', tr)"
  shows "responses tr = 0" "FRead n c \<notin> set tr" "r \<noteq> Some StopEOF" "r \<noteq> Some StopTimeout"
        "r \<noteq> Some StopFlag"
  using assms by (auto simp: poll_cancel_def check_stop_file_def Let_def split: if_splits)

lemma iteration_cases [consumes 1, case_names timeout_stop timeout_cont eof served other]:
  assumes "iteration s e = (r, s', tr)"
  obtains
    "rd e = None" "10 < count_of s + 1" "r = Some StopTimeout"
      "s' = fseek_end ((flagged s e)\<lparr>timeout_count := Some (count_of s + 1)\<rparr>)"
      "tr = [SerRead None, Print (MsgStoppedTimeout (latches s))]"
  | "rd e = None" "count_of s + 1 \<le> 10" "r = None"
      "s' = (flagged s e)\<lparr>timeout_count := Some (count_of s + 1)\<rparr>" "tr = [SerRead None]"
  | tr1 where "rd e = Some 0x0F" "serve ((flagged s e)\<lparr>timeout_count := Some 0\<rparr>) = (True, s', tr1)"
      "r = Some StopEOF" "tr = SerRead (Some 0x0F) # tr1"
  | s2 tr1 tr2 where "rd e = Some 0x0F"
      "serve ((flagged s e)\<lparr>timeout_count := Some 0\<rparr>) = (False, s2, tr1)"
      "poll_cancel 0x0F e s2 = (r, s', tr2)" "tr = SerRead (Some 0x0F) # tr1 @ tr2"
  | b tr2 where "rd e = Some b" "b \<noteq> 0x0F"
      "poll_cancel b e ((flagged s e)\<lparr>timeout_count := Some 0\<rparr>) = (r, s', tr2)"
      "tr = SerRead (Some b) # tr2"
proof (cases "rd e")
  case None
  then show ?thesis using assms that(1,2)
    by (cases "10 < count_of s + 1")
       (auto simp: iteration_def Let_def count_of_def flagged_def)
next
  case (Some b)
  show ?thesis
  proof (cases "b = 0x0F")
    case True
    obtain eof s2 tr1 where sv: "serve ((flagged s e)\<lparr>timeout_count := Some 0\<rparr>) = (eof, s2, tr1)"
      by (metis prod_cases3)
    show ?thesis
    proof (cases eof)
      case True
      with sv Some \<open>b = 0x0F\<close> assms that(3) show ?thesis
        by (auto simp: iteration_def Let_def flagged_def)
    next
      case False
      obtain r2 s3 tr2 where pc: "poll_cancel 0x0F e s2 = (r2, s3, tr2)"
        by (metis prod_cases3)
      with sv Some \<open>b = 0x0F\<close> False assms that(4) show ?thesis
        by (auto simp: iteration_def Let_def flagged_def)
    qed
  next
    case False
    obtain r2 s3 tr2 where
      pc: "poll_cancel b e ((flagged s e)\<lparr>timeout_count := Some 0\<rparr>) = (r2, s3, tr2)"
      by (metis prod_cases3)
    with Some False assms that(5) show ?thesis
      by (auto simp: iteration_def Let_def flagged_def)
  qed
qed

lemma flagged_simps [simp]:
  "timeout_count (flagged s e) = timeout_count s" "latches (flagged s e) = latches s"
  "extra (flagged s e) = extra s" "content (flagged s e) = content s" "pos (flagged s e) = pos s"
  "shutdown_requested (flagged s e) = (shutdown_requested s \<or> sig e)"
  by (simp_all add: flagged_def)

lemma iteration_extra:
  assumes "iteration s e = (r, s', tr)" "extra s = 0" shows "extra s' = 0"
  using assms(1)
proof (cases rule: iteration_cases)
  case (served s2 tr1 tr2)
  from serve_frame(4)[OF served(2)] assms(2) have "extra s2 = 0" by simp
  with poll_cancel_frame(3)[OF served(3)] show ?thesis by simp
next
  case (eof tr1)
  from serve_frame(4)[OF eof(2)] assms(2) show ?thesis by simp
next
  case (other b tr2)
  from poll_cancel_frame(3)[OF other(3)] assms(2) show ?thesis by simp
qed (simp_all add: assms(2) fseek_end_def)

lemma iteration_latches:
  assumes "iteration s e = (r, s', tr)"
  shows "latches s' = latches s + 30 * int (responses tr)"
  using assms
proof (cases rule: iteration_cases)
  case (served s2 tr1 tr2)
  with serve_latches[OF served(2)] poll_cancel_frame(2)[OF served(3)] poll_cancel_trace(1)[OF served(3)]
  show ?thesis by simp
next
  case (eof tr1)
  with serve_latches[OF eof(2)] show ?thesis by simp
next
  case (other b tr2)
  with poll_cancel_frame(2)[OF other(3)] poll_cancel_trace(1)[OF other(3)] show ?thesis by simp
qed (simp_all add: fseek_end_def)

lemma iteration_reads:
  assumes "iteration s e = (r, s', tr)" "extra s = 0" "FRead n c \<in> set tr" shows "n = 60"
  using assms(1)
proof (cases rule: iteration_cases)
  case (served s2 tr1 tr2)
  with assms(3) poll_cancel_trace(2)[OF served(3)] have "FRead n c \<in> set tr1" by auto
  with serve_reads[OF served(2)] assms(2) show ?thesis by simp
next
  case (eof tr1)
  with assms(3) have "FRead n c \<in> set tr1" by auto
  with serve_reads[OF eof(2)] assms(2) show ?thesis by simp
next
  case (other b tr2)
  with assms(3) poll_cancel_trace(2)[OF other(3)] show ?thesis by auto
qed (use assms(3) in auto)

lemma iteration_eof:
  assumes "iteration s e = (r, s', tr)"
  shows "(r = Some StopEOF) = (FRead 60 [] \<in> set tr)"
  using assms
proof (cases rule: iteration_cases)
  case (served s2 tr1 tr2)
  with serve_eof[OF served(2)] poll_cancel_trace(2,3)[OF served(3)] show ?thesis by auto
next
  case (eof tr1)
  with serve_eof[OF eof(2)] show ?thesis by auto
next
  case (other b tr2)
  with poll_cancel_trace(2,3)[OF other(3)] show ?thesis by auto
qed simp_all

lemma run_loop_cases [consumes 1, case_names flag stop cont]:
  assumes "run_loop s (e # es) = (r, s', tr)"
  obtains "shutdown_requested s" "r = Some StopFlag" "s' = s" "tr = []"
  | r1 where "\<not> shutdown_requested s" "iteration s e = (Some r1, s', tr)" "r = Some r1"
  | s1 tr1 tr2 where "\<not> shutdown_requested s" "iteration s e = (None, s1, tr1)"
      "run_loop s1 es = (r, s', tr2)" "tr = tr1 @ tr2"
proof (cases "shutdown_requested s")
  case True
  with assms have "r = Some StopFlag" "s' = s" "tr = []" by auto
  with True show ?thesis by (rule that(1))
next
  case False
  obtain r1 s1 tr1 where it: "iteration s e = (r1, s1, tr1)" by (metis prod_cases3)
  show ?thesis
  proof (cases r1)
    case None
    obtain r2 s2 tr2 where rl: "run_loop s1 es = (r2, s2, tr2)" by (metis prod_cases3)
    with None it False assms have "r = r2" "s' = s2" "tr = tr1 @ tr2" by auto
    with None it rl False show ?thesis by (auto intro: that(3))
  next
    case (Some r1')
    with it False assms have "r = Some r1'" "s' = s1" "tr = tr1" by auto
    with Some it False show ?thesis by (auto intro: that(2))
  qed
qed

lemma run_loop_extra:
  "run_loop s es = (r, s', tr) \<Longrightarrow> extra s = 0 \<Longrightarrow> extra s' = 0"
proof (induction es arbitrary: s r s' tr)
  case Nil
  then show ?case by (simp split: if_splits)
next
  case (Cons e es)
  from Cons.prems(1) show ?case
  proof (cases rule: run_loop_cases)
    case flag
    with Cons.prems(2) show ?thesis by simp
  next
    case (stop r1)
    with Cons.prems(2) show ?thesis by (blast dest: iteration_extra)
  next
    case (cont s1 tr1 tr2)
    from iteration_extra[OF cont(2) Cons.prems(2)] Cons.IH[OF cont(3)] show ?thesis by simp
  qed
qed

lemma run_loop_reads:
  "run_loop s es = (r, s', tr) \<Longrightarrow> extra s = 0 \<Longrightarrow> FRead n c \<in> set tr \<Longrightarrow> n = 60"
proof (induction es arbitrary: s r s' tr)
  case Nil
  then show ?case by (simp split: if_splits)
next
  case (Cons e es)
  from Cons.prems(1) show ?case
  proof (cases rule: run_loop_cases)
    case flag
    with Cons.prems(3) show ?thesis by simp
  next
    case (stop r1)
    with Cons.prems(2,3) show ?thesis by (blast dest: iteration_reads)
  next
    case (cont s1 tr1 tr2)
    from Cons.prems(3) cont(4) consider "FRead n c \<in> set tr1" | "FRead n c \<in> set tr2" by auto
    then show ?thesis
    proof cases
      case 1
      with iteration_reads[OF cont(2) Cons.prems(2)] show ?thesis by simp
    next
      case 2
      with Cons.IH[OF cont(3) iteration_extra[OF cont(2) Cons.prems(2)]] show ?thesis by simp
    qed
  qed
qed

lemma run_loop_latches:
  "run_loop s es = (r, s', tr) \<Longrightarrow> latches s' = latches s + 30 * int (responses tr)"
proof (induction es arbitrary: s r s' tr)
  case Nil
  then show ?case by (auto split: if_splits)
next
  case (Cons e es)
  from Cons.prems(1) show ?case
  proof (cases rule: run_loop_cases)
    case flag
    then show ?thesis by simp
  next
    case (stop r1)
    then show ?thesis by (simp add: iteration_latches)
  next
    case (cont s1 tr1 tr2)
    from iteration_latches[OF cont(2)] Cons.IH[OF cont(3)] cont(4) show ?thesis by simp
  qed
qed

lemma run_loop_eof:
  "run_loop s es = (r, s', tr) \<Longrightarrow> (r = Some StopEOF) = (FRead 60 [] \<in> set tr)"
proof (induction es arbitrary: s r s' tr)
  case Nil
  then show ?case by (auto split: if_splits)
next
  case (Cons e es)
  from Cons.prems(1) show ?case
  proof (cases rule: run_loop_cases)
    case flag
    then show ?thesis by simp
  next
    case (stop r1)
    with iteration_eof[OF stop(2)] show ?thesis by simp
  next
    case (cont s1 tr1 tr2)
    from iteration_eof[OF cont(2)] have "FRead 60 [] \<notin> set tr1" by simp
    with Cons.IH[OF cont(3)] cont(4) show ?thesis by simp
  qed
qed

lemma serve_responses:
  assumes "serve s = (eof, s', tr)"
  shows "responses tr = (if eof then 0 else 1)"
  using assms by (auto simp: serve_def fread_def Let_def split: if_splits)

lemma iteration_responses:
  assumes "iteration s e = (r, s', tr)"
  shows "responses tr = (if rd e = Some 0x0F \<and> r \<noteq> Some StopEOF then 1 else 0)"
  using assms
proof (cases rule: iteration_cases)
  case (served s2 tr1 tr2)
  with serve_responses[OF served(2)] poll_cancel_trace(1,3)[OF served(3)] show ?thesis by simp
next
  case (eof tr1)
  with serve_responses[OF eof(2)] show ?thesis by simp
next
  case (other b tr2)
  with poll_cancel_trace(1)[OF other(3)] show ?thesis by simp
qed simp_all

lemma serve_short:
  assumes "extra s = 0" "chunk = take 60 (drop (pos s) (content s))" "chunk \<noteq> []" "length chunk < 60"
  shows "\<exists>s' rest. serve s = (False, s', FRead 60 chunk # SerWrite (0x0F # chunk @ replicate (60 - length chunk) 0) # rest)
           \<and> responses rest = 0"
  using assms by (auto simp: serve_def fread_def Let_def)

lemma scenario_120:
  assumes "length bytes = 120"
    and "rd e1 = Some 0x0F" "\<not> sig e1" "rd e2 = Some 0x0F" "\<not> sig e2" "rd e3 = Some 0x0F" "\<not> sig e3"
  shows "\<exists>t. run_loop (fresh False bytes) (e1 # e2 # e3 # rest) =
           (Some StopEOF, t,
            [SerRead (Some 0x0F), FRead 60 (take 60 bytes), SerWrite (0x0F # take 60 bytes),
             SerRead (Some 0x0F), FRead 60 (drop 60 bytes), SerWrite (0x0F # drop 60 bytes),
             SerRead (Some 0x0F), FRead 60 [], Print (MsgStoppedEOF 60)])
           \<and> latches t = 60"
  using assms
  by (auto simp add: fresh_def iteration_def count_of_def flagged_def serve_def poll_cancel_def check_stop_file_def fread_def
        progress_def Let_def)

lemma iteration_timeout:
  "rd e = None \<Longrightarrow> iteration s e =
     (if 10 < count_of s + 1
      then (Some StopTimeout, fseek_end ((flagged s e)\<lparr>timeout_count := Some (count_of s + 1)\<rparr>),
            [SerRead None, Print (MsgStoppedTimeout (latches s))])
      else (None, (flagged s e)\<lparr>timeout_count := Some (count_of s + 1)\<rparr>, [SerRead None]))"
  by (simp add: iteration_def Let_def count_of_def flagged_def)

lemma iteration_count_timeout:
  assumes "iteration s e = (r, s', tr)" "rd e = None"
  shows "timeout_count s' = Some (count_of s + 1) \<and> (r = Some StopTimeout) = (10 < count_of s + 1)"
  using assms by (auto simp: iteration_timeout fseek_end_def split: if_splits)

lemma iteration_count_byte:
  assumes "iteration s e = (r, s', tr)" "rd e \<noteq> None"
  shows "timeout_count s' = Some 0 \<and> r \<noteq> Some StopTimeout"
  using assms(1)
proof (cases rule: iteration_cases)
  case (served s2 tr1 tr2)
  with serve_frame(1)[OF served(2)] poll_cancel_frame(1)[OF served(3)]
      poll_cancel_trace(4)[OF served(3)] show ?thesis by simp
next
  case (eof tr1)
  with serve_frame(1)[OF eof(2)] show ?thesis by simp
next
  case (other b tr2)
  with poll_cancel_frame(1)[OF other(3)] poll_cancel_trace(4)[OF other(3)] show ?thesis by simp
qed (use assms(2) in simp_all)

lemma run_loop_timeout:
  "run_loop s es = (Some StopTimeout, s', tr) \<Longrightarrow> count_of s \<le> 10 \<Longrightarrow>
     \<exists>pre mid post. es = pre @ mid @ post \<and> (\<forall>x\<in>set mid. rd x = None) \<and>
        ((pre = [] \<and> length mid + count_of s = 11) \<or>
         (pre \<noteq> [] \<and> rd (last pre) \<noteq> None \<and> length mid = 11))"
proof (induction es arbitrary: s s' tr)
  case Nil
  then show ?case by (simp split: if_splits)
next
  case (Cons e es)
  from Cons.prems(1) show ?case
  proof (cases rule: run_loop_cases)
    case flag
    then show ?thesis by simp
  next
    case (stop r1)
    then have it: "iteration s e = (Some StopTimeout, s', tr)" by simp
    have ne: "rd e = None" using iteration_count_byte[OF it] by blast
    with iteration_count_timeout[OF it] Cons.prems(2) have "count_of s = 10" by simp
    then have "e # es = [] @ [e] @ es \<and> (\<forall>x\<in>set [e]. rd x = None) \<and> length [e] + count_of s = 11"
      using ne by simp
    then show ?thesis by blast
  next
    case (cont s1 tr1 tr2)
    show ?thesis
    proof (cases "rd e")
      case None
      from iteration_count_timeout[OF cont(2) None] have c1: "count_of s1 = count_of s + 1" "count_of s + 1 \<le> 10"
        by (simp_all add: count_of_def)
      from Cons.IH[OF cont(3)] c1 obtain pre mid post where
        es: "es = pre @ mid @ post" and mid: "\<forall>x\<in>set mid. rd x = None" and
        alt: "(pre = [] \<and> length mid + count_of s1 = 11) \<or> (pre \<noteq> [] \<and> rd (last pre) \<noteq> None \<and> length mid = 11)"
        by auto
      from alt show ?thesis
      proof
        assume a: "pre = [] \<and> length mid + count_of s1 = 11"
        then have "e # es = [] @ (e # mid) @ post \<and> (\<forall>x\<in>set (e # mid). rd x = None)
                   \<and> length (e # mid) + count_of s = 11"
          using es mid None c1 by simp
        then show ?thesis by blast
      next
        assume a: "pre \<noteq> [] \<and> rd (last pre) \<noteq> None \<and> length mid = 11"
        then have "e # es = (e # pre) @ mid @ post \<and> e # pre \<noteq> [] \<and> rd (last (e # pre)) \<noteq> None \<and> length mid = 11"
          using es by simp
        with mid show ?thesis by blast
      qed
    next
      case (Some b)
      then have "rd e \<noteq> None" by simp
      from iteration_count_byte[OF cont(2) this] have c1: "count_of s1 = 0" by (simp add: count_of_def)
      from Cons.IH[OF cont(3)] c1 obtain pre mid post where
        es: "es = pre @ mid @ post" and mid: "\<forall>x\<in>set mid. rd x = None" and
        alt: "(pre = [] \<and> length mid + count_of s1 = 11) \<or> (pre \<noteq> [] \<and> rd (last pre) \<noteq> None \<and> length mid = 11)"
        by auto
      from alt c1 have len: "length mid = 11" by auto
      have "e # es = (e # pre) @ mid @ post \<and> e # pre \<noteq> [] \<and> rd (last (e # pre)) \<noteq> None"
        using es Some alt by (cases "pre = []") auto
      with mid len show ?thesis by blast
    qed
  qed
qed

lemma silence_stops:
  "\<not> shutdown_requested s \<Longrightarrow> count_of s + length mid = 11 \<Longrightarrow> mid \<noteq> [] \<Longrightarrow>
   \<forall>x\<in>set mid. rd x = None \<and> \<not> sig x \<Longrightarrow> fst (run_loop s (mid @ post)) = Some StopTimeout"
proof (induction mid arbitrary: s)
  case Nil
  then show ?case by simp
next
  case (Cons e mid)
  have e: "rd e = None" "\<not> sig e" using Cons.prems(4) by simp_all
  show ?case
  proof (cases "mid = []")
    case True
    with Cons.prems(2) have "10 < count_of s + 1" by simp
    with e Cons.prems(1) True show ?thesis by (simp add: iteration_timeout)
  next
    case False
    with Cons.prems(2) have le: "\<not> 10 < count_of s + 1" by (cases mid) auto
    let ?s1 = "(flagged s e)\<lparr>timeout_count := Some (count_of s + 1)\<rparr>"
    have "fst (run_loop ?s1 (mid @ post)) = Some StopTimeout"
    proof (rule Cons.IH)
      show "\<not> shutdown_requested ?s1" using Cons.prems(1) e by simp
      show "count_of ?s1 + length mid = 11" using Cons.prems(2) by (simp add: count_of_def)
      show "mid \<noteq> []" by fact
      show "\<forall>x\<in>set mid. rd x = None \<and> \<not> sig x" using Cons.prems(4) by simp
    qed
    with e le Cons.prems(1) show ?thesis
      by (auto simp add: iteration_timeout split: prod.splits)
  qed
qed

section \<open>Leaving the loop, and what follows\<close>

lemma in_loop_progress: "list_all in_loop (progress l)"
  by (simp add: progress_def)

lemma serve_in_loop:
  assumes "serve s = (eof, s', tr)" shows "list_all in_loop tr"
  using assms by (auto simp: serve_def fread_def Let_def in_loop_progress split: if_splits)

lemma poll_cancel_in_loop:
  assumes "poll_cancel b e s = (r, s', tr)" shows "list_all in_loop tr"
  using assms by (auto simp: poll_cancel_def check_stop_file_def Let_def split: if_splits)

lemma iteration_in_loop:
  assumes "iteration s e = (r, s', tr)" shows "list_all in_loop tr"
  using assms
proof (cases rule: iteration_cases)
  case (served s2 tr1 tr2)
  with serve_in_loop[OF served(2)] poll_cancel_in_loop[OF served(3)] show ?thesis by simp
next
  case (eof tr1)
  with serve_in_loop[OF eof(2)] show ?thesis by simp
next
  case (other b tr2)
  with poll_cancel_in_loop[OF other(3)] show ?thesis by simp
qed simp_all

lemma run_loop_in_loop:
  "run_loop s es = (r, s', tr) \<Longrightarrow> list_all in_loop tr"
proof (induction es arbitrary: s r s' tr)
  case Nil
  then show ?case by (auto split: if_splits)
next
  case (Cons e es)
  from Cons.prems show ?case
  proof (cases rule: run_loop_cases)
    case flag
    then show ?thesis by simp
  next
    case (stop r1)
    then show ?thesis by (simp add: iteration_in_loop)
  next
    case (cont s1 tr1 tr2)
    with iteration_in_loop[OF cont(2)] Cons.IH[OF cont(3)] show ?thesis by simp
  qed
qed

lemma in_loop_no_close:
  assumes "list_all in_loop tr"
  shows "FClose \<notin> set tr" "SerClose \<notin> set tr" "reset_invocations tr = 0"
  using assms by (induction tr) (auto simp: reset_invocations_def)

lemma reset_invocations_append [simp]:
  "reset_invocations (xs @ ys) = reset_invocations xs + reset_invocations ys"
  by (simp add: reset_invocations_def)

lemma reset_invocations_reset [simp]: "reset_invocations (reset_cy8ckit_device ok) = 1"
  by (simp add: reset_invocations_def reset_cy8ckit_device_def)

lemma run_loop_flag: "shutdown_requested s \<Longrightarrow> run_loop s es = (Some StopFlag, s, [])"
  by (cases es) simp_all

lemma poll_cancel_flag:
  assumes "poll_cancel b e s = (q, s', tr)"
  shows "shutdown_requested s \<Longrightarrow> q = Some StopUser"
    and "\<not> shutdown_requested s \<Longrightarrow> (q = Some StopUser) = (stop_file e \<and> latches s mod 100 = 0)"
    and "q = None \<Longrightarrow> \<not> shutdown_requested s'"
  using assms by (auto simp: poll_cancel_def check_stop_file_def Let_def split: if_splits)

lemma poll_cancel_keeps_flag:
  assumes "poll_cancel b e s = (q, s', tr)" "shutdown_requested s"
  shows "shutdown_requested s'"
  using assms by (auto simp: poll_cancel_def check_stop_file_def Let_def split: if_splits)

lemma iteration_sig_flag:
  assumes "iteration s e = (q, s', tr)" "sig e"
  shows "shutdown_requested s'"
  using assms(1)
proof (cases rule: iteration_cases)
  case (served s2 tr1 tr2)
  have "shutdown_requested s2" using serve_frame(2)[OF served(2)] assms(2) by simp
  from poll_cancel_keeps_flag[OF served(3) this] show ?thesis .
next
  case (eof tr1)
  show ?thesis using serve_frame(2)[OF eof(2)] assms(2) by simp
next
  case (other b tr2)
  have "shutdown_requested ((flagged s e)\<lparr>timeout_count := Some 0\<rparr>)" using assms(2) by simp
  from poll_cancel_keeps_flag[OF other(3) this] show ?thesis .
qed (simp_all add: assms(2) fseek_end_def)

lemma iteration_sig_stop:
  assumes "iteration s e = (q, s', tr)" "sig e"
  shows "q = None \<or> q = Some StopUser
         \<or> (q = Some StopTimeout \<and> rd e = None \<and> 10 < count_of s + 1)
         \<or> (q = Some StopEOF \<and> rd e = Some 0x0F)"
  using assms(1)
proof (cases rule: iteration_cases)
  case (served s2 tr1 tr2)
  have "shutdown_requested s2" using serve_frame(2)[OF served(2)] assms(2) by simp
  from poll_cancel_flag(1)[OF served(3) this] show ?thesis by simp
next
  case (other b tr2)
  have "shutdown_requested ((flagged s e)\<lparr>timeout_count := Some 0\<rparr>)" using assms(2) by simp
  from poll_cancel_flag(1)[OF other(3) this] show ?thesis by simp
qed simp_all

lemma run_loop_sig:
  assumes "\<not> shutdown_requested s" "sig e"
  shows "run_loop s (e # es) = run_loop s [e]"
    and "\<exists>q. fst (run_loop s [e]) = Some q \<and>
           (session_state q = Interrupted
            \<or> (q = StopTimeout \<and> rd e = None \<and> 10 < count_of s + 1)
            \<or> (q = StopEOF \<and> rd e = Some 0x0F))"
proof -
  obtain q s' tr where it: "iteration s e = (q, s', tr)" by (metis prod_cases3)
  have fl: "shutdown_requested s'" by (rule iteration_sig_flag[OF it assms(2)])
  show "run_loop s (e # es) = run_loop s [e]"
    using assms(1) it fl by (cases q) (simp_all add: run_loop_flag)
  show "\<exists>q. fst (run_loop s [e]) = Some q \<and>
           (session_state q = Interrupted
            \<or> (q = StopTimeout \<and> rd e = None \<and> 10 < count_of s + 1)
            \<or> (q = StopEOF \<and> rd e = Some 0x0F))"
  proof (cases q)
    case None
    with assms(1) it fl show ?thesis by simp
  next
    case (Some r)
    with iteration_sig_stop[OF it assms(2)] have
      "r = StopUser \<or> (r = StopTimeout \<and> rd e = None \<and> 10 < count_of s + 1)
       \<or> (r = StopEOF \<and> rd e = Some 0x0F)" by simp
    moreover have "fst (run_loop s [e]) = Some r" using assms(1) it Some by simp
    ultimately show ?thesis by auto
  qed
qed

lemma iteration_marker:
  assumes "iteration s e = (q, s', tr)" "\<not> shutdown_requested s" "\<not> sig e"
  shows "(q = Some StopUser) =
           (stop_file e \<and> rd e \<noteq> None \<and> q \<noteq> Some StopEOF \<and> latches s' mod 100 = 0)"
  using assms(1)
proof (cases rule: iteration_cases)
  case (served s2 tr1 tr2)
  have "\<not> shutdown_requested s2" using serve_frame(2)[OF served(2)] assms(2,3) by simp
  from poll_cancel_flag(2)[OF served(3) this] poll_cancel_frame(2)[OF served(3)]
    poll_cancel_trace(3)[OF served(3)] served(1)
  show ?thesis by simp
next
  case (other b tr2)
  have "\<not> shutdown_requested ((flagged s e)\<lparr>timeout_count := Some 0\<rparr>)" using assms(2,3) by simp
  from poll_cancel_flag(2)[OF other(3) this] poll_cancel_frame(2)[OF other(3)]
    poll_cancel_trace(3)[OF other(3)] other(1)
  show ?thesis by simp
qed simp_all

lemma finish_order:
  assumes "finish en r s = (Ended q, tr)"
  shows "\<exists>pre l post. tr = pre @ Print (MsgSummary l) # post \<and> FClose \<notin> set pre
           \<and> SerClose \<notin> set pre \<and> FClose \<in> set post \<and> SerClose \<in> set post"
proof -
  let ?pre = "(if \<not> shutdown_requested s \<and> pos s < length (content s)
               then [Print (MsgStoppedRequesting (latches s))] else [])"
  let ?mid = "(if \<not> shutdown_requested s then Print MsgTransmissionComplete else Print MsgInterruptedByUser)"
  have "tr = ?pre @ Print (MsgSummary (latches s)) # (FClose # ?mid # shutdown_device en)"
    using assms by (auto simp: finish_def Let_def split: if_splits)
  moreover have "FClose \<notin> set ?pre" "SerClose \<notin> set ?pre" by simp_all
  moreover have "FClose \<in> set (FClose # ?mid # shutdown_device en)"
    "SerClose \<in> set (FClose # ?mid # shutdown_device en)"
    by (simp_all add: shutdown_device_def)
  ultimately show ?thesis by blast
qed

lemma run_playback_Ended:
  assumes "run_playback en p = (Ended q, tr)"
  obtains bytes s ltr ftr where "file_open en = Some bytes"
    "run_loop (fresh (sig_early en) bytes) (loop_events en) = (Some q, s, ltr)"
    "finish en q s = (Ended q, ftr)"
    "tr = [SerOpen, SerWrite [0xFF], SerRead (ping_reply en), Print MsgConnected, FOpen,
           Print (MsgFileOpened (length bytes)), SerWrite [0x00], SerWrite start_command] @ ltr @ ftr"
  using assms
  by (auto simp: run_playback_def Let_def finish_def split: if_splits option.splits prod.splits)

lemma session_order:
  assumes "run_playback en p = (Ended q, tr)"
  shows "\<exists>pre l post. tr = pre @ Print (MsgSummary l) # post \<and> FClose \<notin> set pre
           \<and> SerClose \<notin> set pre \<and> FClose \<in> set post \<and> SerClose \<in> set post"
  using assms
proof (cases rule: run_playback_Ended)
  case (1 bytes s ltr ftr)
  from finish_order[OF 1(3)] obtain pre l post where
    f: "ftr = pre @ Print (MsgSummary l) # post" "FClose \<notin> set pre" "SerClose \<notin> set pre"
       "FClose \<in> set post" "SerClose \<in> set post" by blast
  let ?h = "[SerOpen, SerWrite [0xFF], SerRead (ping_reply en), Print MsgConnected, FOpen,
           Print (MsgFileOpened (length bytes)), SerWrite [0x00], SerWrite start_command]"
  from in_loop_no_close(1,2)[OF run_loop_in_loop[OF 1(2)]] f
  have "tr = (?h @ ltr @ pre) @ Print (MsgSummary l) # post" "FClose \<notin> set (?h @ ltr @ pre)"
    "SerClose \<notin> set (?h @ ltr @ pre)"
    using 1(4) by simp_all
  with f(4,5) show ?thesis by blast
qed

lemmas eval_defs = run_playback_def finish_def shutdown_device_def reset_cy8ckit_device_def
  fresh_def iteration_def serve_def poll_cancel_def check_stop_file_def fread_def fseek_end_def
  progress_def flagged_def count_of_def start_command_def Let_def

lemma monitor_actions:
  "monitor g es = Some tr \<Longrightarrow> set tr \<subseteq> {TouchStop, SendSigint, Terminate, Kill}"
  by (induction es) (auto split: if_splits)

lemma monitor_no_reset:
  assumes "monitor g es = Some tr" shows "reset_invocations tr = 0"
proof -
  from monitor_actions[OF assms] have "\<forall>a\<in>set tr. a \<noteq> Print MsgDeviceReset \<and> a \<noteq> Print MsgResetWarning"
    by auto
  then show ?thesis by (simp add: reset_invocations_def)
qed

lemma reset_invocations_Cons:
  "reset_invocations (a # tr) =
     (if a = Print MsgDeviceReset \<or> a = Print MsgResetWarning then 1 else 0) + reset_invocations tr"
  by (simp add: reset_invocations_def)

lemma reset_invocations_Nil [simp]: "reset_invocations [] = 0"
  by (simp add: reset_invocations_def)

lemma play_selected_launched:
  assumes "launch_error v = None" "play_selected v = Some tr"
  obtains mtr where "monitor (gone_after_terminate v) (mon_events v) = Some mtr"
    "tr = (if stale_stop v then [RemoveStop] else []) @ [Launch] @ mtr
          @ (if wait_ok v then [WaitExit] else [WaitExit, Kill])
          @ (if stop_left v then [RemoveStop] else []) @ [Draw]"
  using assms by (auto simp: play_selected_def Let_def split: option.splits)

lemma supervisor_no_reset:
  assumes "launch_error v = None" "play_selected v = Some tr"
  shows "reset_invocations tr = 0"
  using assms
proof (cases rule: play_selected_launched)
  case (1 mtr)
  with monitor_no_reset[OF 1(1)] show ?thesis by (simp add: reset_invocations_Cons)
qed

lemma supervisor_removes_marker:
  assumes "launch_error v = None" "play_selected v = Some tr" "stop_left v"
  shows "\<exists>pre. tr = pre @ [RemoveStop, Draw] \<and> WaitExit \<in> set pre"
  using assms(1,2)
proof (cases rule: play_selected_launched)
  case (1 mtr)
  let ?pre = "(if stale_stop v then [RemoveStop] else []) @ [Launch] @ mtr
          @ (if wait_ok v then [WaitExit] else [WaitExit, Kill])"
  have "tr = ?pre @ [RemoveStop, Draw]" using 1(2) assms(3) by simp
  moreover have "WaitExit \<in> set ?pre" by simp
  ultimately show ?thesis by blast
qed

lemma finish_resets:
  assumes "finish en r s = (res, tr)"
  shows "reset_invocations tr = (if exit_code res = Some 0 then 1 else 0)"
  using assms
  by (auto simp: finish_def Let_def shutdown_device_def reset_invocations_Cons split: if_splits)

lemma child_resets:
  "reset_invocations (snd (run_playback en p)) =
     (if exit_code (fst (run_playback en p)) = Some 0 then 1 else 0)"
proof (cases "p = None \<or> \<not> serial_opens en \<or> ping_reply en \<noteq> Some 0xFF \<or> file_open en = None")
  case True
  then show ?thesis
    by (auto simp: run_playback_def Let_def reset_invocations_Cons split: option.splits)
next
  case False
  then obtain bytes where fo: "file_open en = Some bytes" by auto
  obtain q s ltr where rl: "run_loop (fresh (sig_early en) bytes) (loop_events en) = (q, s, ltr)"
    by (metis prod_cases3)
  have l0: "reset_invocations ltr = 0" using in_loop_no_close(3)[OF run_loop_in_loop[OF rl]] .
  show ?thesis
  proof (cases q)
    case None
    with False fo rl l0 show ?thesis
      by (simp add: run_playback_def Let_def reset_invocations_Cons start_command_def)
  next
    case (Some r)
    obtain res ftr where fi: "finish en r s = (res, ftr)" by (metis prod.exhaust)
    with False fo rl l0 Some finish_resets[OF fi] show ?thesis
      by (simp add: run_playback_def Let_def reset_invocations_Cons start_command_def)
  qed
qed

subsection \<open>The stop file, while it stays\<close>

lemma polls_left_range: "1 \<le> polls_left s \<and> polls_left s \<le> 10"
proof -
  have "0 \<le> (latches s div 30) mod 10" "(latches s div 30) mod 10 < 10" by simp_all
  then show ?thesis unfolding polls_left_def by linarith
qed

lemma next_tenth:
  assumes "(30 * (m + 1)) mod 100 \<noteq> (0::int)"
  shows "(m + 1) mod 10 = m mod 10 + 1"
proof -
  have ne: "(m + 1) mod 10 \<noteq> 0"
  proof
    assume "(m + 1) mod 10 = 0"
    then obtain j where "m + 1 = 10 * j" by (auto simp: mod_eq_0_iff_dvd)
    then have "30 * (m + 1) = 100 * (3 * j)" by simp
    then have "(30 * (m + 1)) mod 100 = 0" by (metis mod_mult_self1_is_0)
    with assms show False by simp
  qed
  have eq: "(m + 1) mod 10 = (m mod 10 + 1) mod 10" by (simp add: mod_add_left_eq)
  have r: "0 \<le> m mod 10" "m mod 10 < 10" by simp_all
  show ?thesis
  proof (cases "m mod 10 + 1 < 10")
    case True
    with r eq show ?thesis by simp
  next
    case False
    with r have "m mod 10 + 1 = 10" by linarith
    with eq ne show ?thesis by simp
  qed
qed

lemma polls_left_step:
  assumes "latches s mod 30 = 0" "latches s' = latches s + 30" "latches s' mod 100 \<noteq> 0"
  shows "polls_left s' = polls_left s - 1"
proof -
  define m where "m = latches s div 30"
  have l: "latches s = 30 * m" using assms(1) by (simp add: m_def mod_eq_0_iff_dvd)
  have l': "latches s' = 30 * (m + 1)" using assms(2) l by simp
  have d: "latches s' div 30 = m + 1" using l' by simp
  from assms(3) l' have "(30 * (m + 1)) mod 100 \<noteq> 0" by simp
  from next_tenth[OF this] show ?thesis by (simp add: polls_left_def d m_def)
qed

lemma poll_cancel_missed:
  assumes "poll_cancel b e s = (None, s', tr)" "stop_file e"
  shows "latches s' mod 100 \<noteq> 0"
  using assms by (auto simp: poll_cancel_def check_stop_file_def Let_def split: if_splits)

lemma iteration_missed:
  assumes "iteration s e = (None, s', tr)" "stop_file e" "rd e \<noteq> None"
  shows "latches s' mod 100 \<noteq> 0"
  using assms(1)
proof (cases rule: iteration_cases)
  case (served s2 tr1 tr2)
  from poll_cancel_missed[OF served(3) assms(2)] show ?thesis .
next
  case (other b tr2)
  from poll_cancel_missed[OF other(3) assms(2)] show ?thesis .
qed (use assms(3) in simp_all)

lemma iteration_served_stop:
  assumes "iteration s e = (Some r, s', tr)" "responses tr = 1"
  shows "r = StopUser"
  using assms(1)
proof (cases rule: iteration_cases)
  case (served s2 tr1 tr2)
  then show ?thesis using poll_cancel_trace(3,4,5)[OF served(3)] by (cases r) auto
next
  case (eof tr1)
  with serve_responses[OF eof(2)] assms(2) show ?thesis by simp
next
  case (other b tr2)
  with poll_cancel_trace(1)[OF other(3)] assms(2) show ?thesis by simp
qed (use assms(2) in simp_all)

lemma marker_bound:
  "run_loop s es = (q, t, tr) \<Longrightarrow> latches s mod 30 = 0 \<Longrightarrow> \<forall>x\<in>set es. stop_file x \<Longrightarrow>
     int (responses tr) \<le> polls_left s
     \<and> (q = None \<longrightarrow> int (responses tr) < polls_left s)
     \<and> (int (responses tr) = polls_left s \<longrightarrow> q = Some StopUser)"
proof (induction es arbitrary: s q t tr)
  case Nil
  with polls_left_range[of s] show ?case by (auto split: if_splits)
next
  case (Cons e es)
  note rng = polls_left_range[of s]
  from Cons.prems(1) show ?case
  proof (cases rule: run_loop_cases)
    case flag
    with rng show ?thesis by simp
  next
    case (stop r1)
    from iteration_responses[OF stop(2)] have le: "responses tr \<le> 1" by simp
    have "int (responses tr) = polls_left s \<longrightarrow> q = Some StopUser"
    proof
      assume "int (responses tr) = polls_left s"
      with le rng have "responses tr = 1" by simp
      from iteration_served_stop[OF stop(2) this] stop(3) show "q = Some StopUser" by simp
    qed
    with le rng stop(3) show ?thesis by simp
  next
    case (cont s1 tr1 tr2)
    have st: "\<forall>x\<in>set es. stop_file x" "stop_file e" using Cons.prems(3) by simp_all
    have lat: "latches s1 = latches s + 30 * int (responses tr1)"
      by (rule iteration_latches[OF cont(2)])
    from iteration_responses[OF cont(2)]
    have r01: "responses tr1 = 0 \<or> (responses tr1 = 1 \<and> rd e = Some 0x0F)"
      by (simp split: if_splits)
    then show ?thesis
    proof
      assume z: "responses tr1 = 0"
      with lat have "latches s1 = latches s" by simp
      then have "latches s1 mod 30 = 0" "polls_left s1 = polls_left s"
        using Cons.prems(2) by (simp_all add: polls_left_def)
      with Cons.IH[OF cont(3) _ st(1)] z cont(4) show ?thesis by auto
    next
      assume o: "responses tr1 = 1 \<and> rd e = Some 0x0F"
      with lat have l1: "latches s1 = latches s + 30" by simp
      have m30: "latches s1 mod 30 = 0" using l1 Cons.prems(2) by simp
      have "latches s1 mod 100 \<noteq> 0" using iteration_missed[OF cont(2) st(2)] o by simp
      from polls_left_step[OF Cons.prems(2) l1 this] have pl: "polls_left s1 = polls_left s - 1" .
      from Cons.IH[OF cont(3) m30 st(1)] pl o cont(4) show ?thesis by auto
    qed
  qed
qed

lemma marker_bound_session:
  assumes "run_loop (fresh fl bytes) es1 = (None, s, tr1)" "\<forall>x\<in>set es2. stop_file x"
    "run_loop s es2 = (q, t, tr2)"
  shows "responses tr2 \<le> 10 \<and> (q = None \<longrightarrow> responses tr2 < 10)
         \<and> (responses tr2 = 10 \<longrightarrow> q = Some StopUser)"
proof -
  from run_loop_latches[OF assms(1)] have m: "latches s mod 30 = 0" by (simp add: fresh_def)
  from marker_bound[OF assms(3) m assms(2)] polls_left_range[of s] show ?thesis by auto
qed

lemma iteration_marker_only:
  assumes "iteration s e = (Some StopUser, s', tr)" "\<not> shutdown_requested s" "\<not> sig e"
  shows "stop_file e \<and> rd e \<noteq> None"
  using iteration_marker[OF assms] by simp

section \<open>Properties of the replay engine\<close>

text \<open>
  C1. The streaming loop ends by the end-of-file \<open>break\<close> (the session is Completed)
  exactly when a read of 60 bytes from the recording returned nothing. For a recording of
  120 bytes and three requests of the device, undisturbed by signals, there are two
  exchanges of a request and a response carrying 60 bytes each, then the empty read ends
  the session as Completed with \<open>latches = 60\<close>.
\<close>

theorem completed_iff_empty_read:
  "((fst (run_loop s es) = Some StopEOF) = (FRead 60 [] \<in> set (snd (snd (run_loop s es)))))
   \<and> (length bytes = 120 \<and> rd e1 = Some 0x0F \<and> \<not> sig e1 \<and> rd e2 = Some 0x0F \<and> \<not> sig e2
        \<and> rd e3 = Some 0x0F \<and> \<not> sig e3 \<longrightarrow>
       (\<exists>t. run_loop (fresh False bytes) (e1 # e2 # e3 # rest) =
           (Some StopEOF, t,
            [SerRead (Some 0x0F), FRead 60 (take 60 bytes), SerWrite (0x0F # take 60 bytes),
             SerRead (Some 0x0F), FRead 60 (drop 60 bytes), SerWrite (0x0F # drop 60 bytes),
             SerRead (Some 0x0F), FRead 60 [], Print (MsgStoppedEOF 60)])
           \<and> latches t = 60 \<and> session_state StopEOF = Completed))"
proof -
  have "(fst (run_loop s es) = Some StopEOF) = (FRead 60 [] \<in> set (snd (snd (run_loop s es))))"
    using run_loop_eof[of s es] by (cases "run_loop s es") auto
  moreover have "length bytes = 120 \<and> rd e1 = Some 0x0F \<and> \<not> sig e1 \<and> rd e2 = Some 0x0F \<and> \<not> sig e2
        \<and> rd e3 = Some 0x0F \<and> \<not> sig e3 \<longrightarrow>
       (\<exists>t. run_loop (fresh False bytes) (e1 # e2 # e3 # rest) =
           (Some StopEOF, t,
            [SerRead (Some 0x0F), FRead 60 (take 60 bytes), SerWrite (0x0F # take 60 bytes),
             SerRead (Some 0x0F), FRead 60 (drop 60 bytes), SerWrite (0x0F # drop 60 bytes),
             SerRead (Some 0x0F), FRead 60 [], Print (MsgStoppedEOF 60)])
           \<and> latches t = 60 \<and> session_state StopEOF = Completed)"
    using scenario_120[of bytes e1 e2 e3 rest] by auto
  ultimately show ?thesis by blast
qed

theorem completed_iff_empty_read_witness:
  "length (replicate 120 (7::byte)) = 120 \<and> rd request = Some 0x0F \<and> \<not> sig request
   \<and> fst (run_loop (fresh False (replicate 120 7)) [request, request, request]) = Some StopEOF
   \<and> FRead 60 [] \<in> set (snd (snd (run_loop (fresh False (replicate 120 7)) [request, request, request])))
   \<and> latches (fst (snd (run_loop (fresh False (replicate 120 7)) [request, request, request]))) = 60"
  using completed_iff_empty_read
    [of "fresh False (replicate 120 7)" "[request, request, request]" "replicate 120 7"
        request request request "[]"]
  by (auto simp: request_def)

text \<open>
  C2. In a state the loop reaches from variables with \<open>extra = 0\<close>, a request \<open>0x0F\<close> whose
  read returns a non-empty chunk of fewer than 60 bytes is answered by one write of 61
  bytes: \<open>0x0F\<close>, the chunk, and zeros up to 60 bytes.
\<close>

theorem short_chunk_zero_padded:
  assumes "extra s0 = 0" and "run_loop s0 es = (None, s, tr0)"
    and "rd e = Some 0x0F"
    and "chunk = take 60 (drop (pos s) (content s))" and "chunk \<noteq> []" and "length chunk < 60"
  shows "\<exists>r s' rest.
           iteration s e = (r, s', SerRead (Some 0x0F) # FRead 60 chunk
                                   # SerWrite (0x0F # chunk @ replicate (60 - length chunk) 0) # rest)
           \<and> responses rest = 0
           \<and> length (0x0F # chunk @ replicate (60 - length chunk) 0) = 61"
proof -
  have ex: "extra s = 0" using run_loop_extra[OF assms(2,1)] .
  let ?s1 = "(flagged s e)\<lparr>timeout_count := Some 0\<rparr>"
  have "extra ?s1 = 0" "chunk = take 60 (drop (pos ?s1) (content ?s1))" using ex assms(4) by simp_all
  from serve_short[OF this assms(5,6)] obtain s2 rest where
    sv: "serve ?s1 = (False, s2, FRead 60 chunk # SerWrite (0x0F # chunk @ replicate (60 - length chunk) 0) # rest)"
    and rs: "responses rest = 0" by blast
  obtain r s3 tr2 where pc: "poll_cancel 0x0F e s2 = (r, s3, tr2)" by (metis prod_cases3)
  have "iteration s e = (r, s3, SerRead (Some 0x0F) # FRead 60 chunk
          # SerWrite (0x0F # chunk @ replicate (60 - length chunk) 0) # (rest @ tr2))"
    using sv pc assms(3) by (simp add: iteration_def Let_def flagged_def)
  moreover have "responses (rest @ tr2) = 0" using rs poll_cancel_trace(1)[OF pc] by simp
  moreover have "length (0x0F # chunk @ replicate (60 - length chunk) (0::byte)) = 61"
    using assms(6) by simp
  ultimately show ?thesis by blast
qed

theorem short_chunk_zero_padded_witness:
  "extra (fresh False [1, 2, 3]) = 0
   \<and> run_loop (fresh False [1, 2, 3]) [] = (None, fresh False [1, 2, 3], [])
   \<and> rd request = Some 0x0F
   \<and> [1, 2, 3] = take 60 (drop (pos (fresh False [1, 2, 3])) (content (fresh False [1, 2, 3])))
   \<and> (\<exists>r s' rest. iteration (fresh False [1, 2, 3]) request =
         (r, s', SerRead (Some 0x0F) # FRead 60 [1, 2, 3]
                 # SerWrite (0x0F # [1, 2, 3] @ replicate 57 0) # rest))"
  using short_chunk_zero_padded
    [of "fresh False [1, 2, 3]" "[]" "fresh False [1, 2, 3]" "[]" request "[1, 2, 3]"]
  by (auto simp add: fresh_def request_def)

text \<open>
  C3. With the serial port open, the session first writes the single byte \<open>0xFF\<close> and
  reads one answer (empty on a timeout). When the answer is not \<open>0xFF\<close> the session ends
  with exit code 2 after reporting the answer: the recording is never opened and
  nothing else is written to the device.
\<close>

theorem handshake_mismatch:
  assumes "movie_path \<noteq> None" and "serial_opens en"
  shows "(\<exists>rest. snd (run_playback en movie_path)
                  = SerOpen # SerWrite [0xFF] # SerRead (ping_reply en) # rest)
       \<and> (ping_reply en \<noteq> Some 0xFF \<longrightarrow>
            run_playback en movie_path =
              (NotReady (ping_reply en),
               [SerOpen, SerWrite [0xFF], SerRead (ping_reply en), Print (MsgNotReady (ping_reply en))])
            \<and> exit_code (fst (run_playback en movie_path)) = Some 2)"
  using assms
  by (auto simp: run_playback_def Let_def split: option.splits prod.splits)

theorem handshake_mismatch_witness:
  "run_playback \<lparr>serial_opens = True, ping_reply = Some 0x00, sig_early = False, file_open = Some [],
                 loop_events = [], wait_events = [], reset_opens = True\<rparr> (Some ''movie.r08'')
   = (NotReady (Some 0x00), [SerOpen, SerWrite [0xFF], SerRead (Some 0x00), Print (MsgNotReady (Some 0x00))])"
  using handshake_mismatch
    [of "Some ''movie.r08''" "\<lparr>serial_opens = True, ping_reply = Some 0x00, sig_early = False,
          file_open = Some [], loop_events = [], wait_events = [], reset_opens = True\<rparr>"]
  by simp

text \<open>
  C4. A timeout adds one to the counter, and the pass ends the session with a device
  timeout exactly when the counter then exceeds 10; a read that returns any byte sets
  the counter to 0 and never ends the session that way. Hence a session that starts
  without a counter and ends with a device timeout has seen 11 consecutive timeouts, and
  11 consecutive undisturbed timeouts do end it.
\<close>

theorem timeout_counter:
  assumes "iteration s e = (r, s', tr)"
  shows "(rd e = None \<longrightarrow> timeout_count s' = Some (count_of s + 1)
                         \<and> (r = Some StopTimeout) = (10 < count_of s + 1))
       \<and> (rd e \<noteq> None \<longrightarrow> timeout_count s' = Some 0 \<and> r \<noteq> Some StopTimeout)
       \<and> (timeout_count s = None \<and> fst (run_loop s es) = Some StopTimeout \<longrightarrow>
            (\<exists>pre mid post. es = pre @ mid @ post \<and> length mid = 11 \<and> (\<forall>x\<in>set mid. rd x = None)))
       \<and> (timeout_count s = None \<and> \<not> shutdown_requested s \<and> length mid = 11
            \<and> (\<forall>x\<in>set mid. rd x = None \<and> \<not> sig x) \<longrightarrow>
            fst (run_loop s (mid @ post)) = Some StopTimeout)"
proof -
  have a: "rd e = None \<longrightarrow> timeout_count s' = Some (count_of s + 1)
                         \<and> (r = Some StopTimeout) = (10 < count_of s + 1)"
    using iteration_count_timeout[OF assms] by blast
  have b: "rd e \<noteq> None \<longrightarrow> timeout_count s' = Some 0 \<and> r \<noteq> Some StopTimeout"
    using iteration_count_byte[OF assms] by blast
  have c: "timeout_count s = None \<and> fst (run_loop s es) = Some StopTimeout \<longrightarrow>
            (\<exists>pre mid post. es = pre @ mid @ post \<and> length mid = 11 \<and> (\<forall>x\<in>set mid. rd x = None))"
  proof
    assume h: "timeout_count s = None \<and> fst (run_loop s es) = Some StopTimeout"
    then obtain t trace where rl: "run_loop s es = (Some StopTimeout, t, trace)"
      by (cases "run_loop s es") auto
    from h have c0: "count_of s = 0" by (simp add: count_of_def)
    from run_loop_timeout[OF rl] c0 obtain pre mid post where
      "es = pre @ mid @ post" "\<forall>x\<in>set mid. rd x = None"
      "(pre = [] \<and> length mid + count_of s = 11) \<or> (pre \<noteq> [] \<and> rd (last pre) \<noteq> None \<and> length mid = 11)"
      by auto
    with c0 show "\<exists>pre mid post. es = pre @ mid @ post \<and> length mid = 11 \<and> (\<forall>x\<in>set mid. rd x = None)"
      by auto
  qed
  have d: "timeout_count s = None \<and> \<not> shutdown_requested s \<and> length mid = 11
            \<and> (\<forall>x\<in>set mid. rd x = None \<and> \<not> sig x) \<longrightarrow>
            fst (run_loop s (mid @ post)) = Some StopTimeout"
  proof
    assume h: "timeout_count s = None \<and> \<not> shutdown_requested s \<and> length mid = 11
            \<and> (\<forall>x\<in>set mid. rd x = None \<and> \<not> sig x)"
    then have "count_of s + length mid = 11" "mid \<noteq> []" by (auto simp: count_of_def)
    with h show "fst (run_loop s (mid @ post)) = Some StopTimeout"
      by (intro silence_stops) auto
  qed
  from a b c d show ?thesis by blast
qed

theorem timeout_counter_witness:
  "rd silence = None \<and> timeout_count (fresh False []) = None
   \<and> \<not> shutdown_requested (fresh False []) \<and> length (replicate 11 silence) = 11
   \<and> timeout_count (fst (snd (iteration (fresh False []) silence))) = Some 1
   \<and> fst (iteration (fresh False []) silence) \<noteq> Some StopTimeout
   \<and> fst (run_loop (fresh False []) (replicate 11 silence)) = Some StopTimeout"
proof -
  let ?s = "fresh False []"
  have 1: "iteration ?s silence = (fst (iteration ?s silence), fst (snd (iteration ?s silence)),
                                     snd (snd (iteration ?s silence)))" by simp
  from timeout_counter[OF 1, of "[]" "replicate 11 silence" "[]"] show ?thesis
    by (simp add: silence_def fresh_def count_of_def)
qed

text \<open>
  C6. In one pass \<open>latches\<close> grows by 30 for a response written and stays as it is
  otherwise; a response is written exactly for a request \<open>0x0F\<close> that did not hit the end
  of the file, whichever branch served it (the statement holds for every value of
  \<open>extra\<close>). Over the whole loop \<open>latches\<close> grows by 30 per response and never decreases.
\<close>

theorem latches_plus_thirty:
  assumes "iteration s e = (r, s', tr)" and "run_loop s es = (q, t, trace)"
  shows "latches s' = latches s + 30 * int (responses tr)
       \<and> responses tr = (if rd e = Some 0x0F \<and> r \<noteq> Some StopEOF then 1 else 0)
       \<and> latches t = latches s + 30 * int (responses trace)
       \<and> latches s \<le> latches t"
  using iteration_latches[OF assms(1)] iteration_responses[OF assms(1)] run_loop_latches[OF assms(2)]
  by simp

theorem latches_plus_thirty_witness:
  "latches (fst (snd (iteration (fresh False [1, 2, 3]) request))) = 30
   \<and> responses (snd (snd (iteration (fresh False [1, 2, 3]) request))) = 1
   \<and> latches (fst (snd (run_loop (fresh False [1, 2, 3]) [request, silence, request]))) = 30
   \<and> responses (snd (snd (run_loop (fresh False [1, 2, 3]) [request, silence, request]))) = 1"
proof -
  let ?s = "fresh False [1, 2, 3]" and ?es = "[request, silence, request]"
  have 1: "iteration ?s request = (fst (iteration ?s request), fst (snd (iteration ?s request)),
                                     snd (snd (iteration ?s request)))" by simp
  have 2: "run_loop ?s ?es = (fst (run_loop ?s ?es), fst (snd (run_loop ?s ?es)), snd (snd (run_loop ?s ?es)))"
    by simp
  have 3: "fst (iteration ?s request) = None" "fst (run_loop ?s ?es) = Some StopEOF"
    by (simp_all add: fresh_def request_def silence_def iteration_def serve_def poll_cancel_def
          check_stop_file_def fread_def progress_def flagged_def count_of_def Let_def)
  have 4: "responses (snd (snd (run_loop ?s ?es))) = 1"
    by (simp add: fresh_def request_def silence_def iteration_def serve_def poll_cancel_def
          check_stop_file_def fread_def progress_def flagged_def count_of_def Let_def responses_def)
  from latches_plus_thirty[OF 1 2] 3 4 show ?thesis
    by (simp add: request_def fresh_def)
qed

text \<open>
  C8. After a successful handshake, a recording that cannot be opened ends the session
  with exit code 3; the only byte written to the device is the probe: neither the reset
  byte \<open>0x00\<close> nor the seven bytes of the start command are sent.
\<close>

theorem file_error_before_commands:
  assumes "movie_path \<noteq> None" and "serial_opens en" and "ping_reply en = Some 0xFF"
    and "file_open en = None"
  shows "run_playback en movie_path =
           (FileFailed, [SerOpen, SerWrite [0xFF], SerRead (Some 0xFF), Print MsgConnected,
                         Print MsgFileOpenFailed])
       \<and> exit_code (fst (run_playback en movie_path)) = Some 3
       \<and> SerWrite [0x00] \<notin> set (snd (run_playback en movie_path))
       \<and> SerWrite start_command \<notin> set (snd (run_playback en movie_path))"
  using assms by (simp add: run_playback_def Let_def start_command_def)

theorem file_error_before_commands_witness:
  "run_playback \<lparr>serial_opens = True, ping_reply = Some 0xFF, sig_early = False, file_open = None,
                 loop_events = [], wait_events = [], reset_opens = True\<rparr> (Some ''missing.r08'')
   = (FileFailed, [SerOpen, SerWrite [0xFF], SerRead (Some 0xFF), Print MsgConnected,
                   Print MsgFileOpenFailed])"
  using file_error_before_commands
    [of "Some ''missing.r08''" "\<lparr>serial_opens = True, ping_reply = Some 0xFF, sig_early = False,
          file_open = None, loop_events = [], wait_events = [], reset_opens = True\<rparr>"]
  by simp

text \<open>
  C10. \<open>extra\<close> starts as 0 and the loop keeps it 0, so the branch \<open>if extra > 0\<close> is
  never taken: every read of the recording inside the loop asks for 60 bytes.
\<close>

theorem extra_always_zero:
  assumes "extra s = 0" and "run_loop s es = (r, s', tr)"
  shows "extra s' = 0 \<and> (\<forall>n c. FRead n c \<in> set tr \<longrightarrow> n = 60)"
  using run_loop_extra[OF assms(2,1)] run_loop_reads[OF assms(2,1)] by blast

theorem extra_always_zero_witness:
  "extra (fresh False [1, 2, 3]) = 0
   \<and> extra (fst (snd (run_loop (fresh False [1, 2, 3]) [request, request]))) = 0
   \<and> FRead 60 [1, 2, 3] \<in> set (snd (snd (run_loop (fresh False [1, 2, 3]) [request, request])))"
proof -
  let ?s = "fresh False [1, 2, 3]" and ?es = "[request, request]"
  have 1: "extra ?s = 0" by (simp add: fresh_def)
  have 2: "run_loop ?s ?es = (fst (run_loop ?s ?es), fst (snd (run_loop ?s ?es)), snd (snd (run_loop ?s ?es)))"
    by simp
  have 3: "FRead 60 [1, 2, 3] \<in> set (snd (snd (run_loop ?s ?es)))"
    by (simp add: fresh_def request_def iteration_def serve_def poll_cancel_def check_stop_file_def
          fread_def progress_def flagged_def count_of_def Let_def)
  from extra_always_zero[OF 1 2] 1 3 show ?thesis by blast
qed

text \<open>
  C5. What the engine does about a cancellation. With the flag set at the loop condition
  the loop is left at once. When the signal handler sets the flag during a pass, the
  loop is left in that pass without another read from the device, and the session is
  Interrupted unless the same pass ends it by the 11th timeout or by the end of the file.
  Without a signal, a pass ends the session as Interrupted only if the stop file exists
  and a byte was received. While the stop file stays, the loop answers at most ten more
  requests and has ended by the tenth, as Interrupted if it answered all ten. In every
  session that returns at the end, the summary is printed before the recording and the
  serial channel are closed.
\<close>

theorem cancellation_observed:
  "(shutdown_requested sa \<longrightarrow> run_loop sa es = (Some StopFlag, sa, []))
   \<and> (\<not> shutdown_requested s \<and> sig e \<longrightarrow>
        run_loop s (e # es) = run_loop s [e]
        \<and> (\<exists>q. fst (run_loop s [e]) = Some q \<and>
              (session_state q = Interrupted
               \<or> (q = StopTimeout \<and> rd e = None \<and> 10 < count_of s + 1)
               \<or> (q = StopEOF \<and> rd e = Some 0x0F))))
   \<and> (\<not> shutdown_requested s \<and> \<not> sig e' \<and> iteration s e' = (Some StopUser, s', tr) \<longrightarrow>
        stop_file e' \<and> rd e' \<noteq> None)
   \<and> (run_loop (fresh fl bytes) es1 = (None, sb, tr1) \<and> (\<forall>x\<in>set es2. stop_file x)
        \<and> run_loop sb es2 = (qb, tb, tr2) \<longrightarrow>
        responses tr2 \<le> 10 \<and> (qb = None \<longrightarrow> responses tr2 < 10)
        \<and> (responses tr2 = 10 \<longrightarrow> qb = Some StopUser))
   \<and> (run_playback en p = (Ended r, trace) \<longrightarrow>
        (\<exists>pre l post. trace = pre @ Print (MsgSummary l) # post \<and> FClose \<notin> set pre
           \<and> SerClose \<notin> set pre \<and> FClose \<in> set post \<and> SerClose \<in> set post))"
proof (intro conjI impI)
  assume "shutdown_requested sa"
  then show "run_loop sa es = (Some StopFlag, sa, [])" by (rule run_loop_flag)
next
  assume "\<not> shutdown_requested s \<and> sig e"
  then have "\<not> shutdown_requested s" "sig e" by simp_all
  then show "run_loop s (e # es) = run_loop s [e]" by (rule run_loop_sig(1))
next
  assume "\<not> shutdown_requested s \<and> sig e"
  then have "\<not> shutdown_requested s" "sig e" by simp_all
  then show "\<exists>q. fst (run_loop s [e]) = Some q \<and>
              (session_state q = Interrupted
               \<or> (q = StopTimeout \<and> rd e = None \<and> 10 < count_of s + 1)
               \<or> (q = StopEOF \<and> rd e = Some 0x0F))"
    by (rule run_loop_sig(2))
next
  assume a: "\<not> shutdown_requested s \<and> \<not> sig e' \<and> iteration s e' = (Some StopUser, s', tr)"
  then have "iteration s e' = (Some StopUser, s', tr)" "\<not> shutdown_requested s" "\<not> sig e'"
    by simp_all
  from iteration_marker_only[OF this] show "stop_file e'" "rd e' \<noteq> None" by simp_all
next
  assume a: "run_loop (fresh fl bytes) es1 = (None, sb, tr1) \<and> (\<forall>x\<in>set es2. stop_file x)
        \<and> run_loop sb es2 = (qb, tb, tr2)"
  then have h: "run_loop (fresh fl bytes) es1 = (None, sb, tr1)" "\<forall>x\<in>set es2. stop_file x"
    "run_loop sb es2 = (qb, tb, tr2)" by simp_all
  from marker_bound_session[OF h]
  show "responses tr2 \<le> 10" "qb = None \<Longrightarrow> responses tr2 < 10"
    "responses tr2 = 10 \<Longrightarrow> qb = Some StopUser" by simp_all
next
  assume "run_playback en p = (Ended r, trace)"
  then show "\<exists>pre l post. trace = pre @ Print (MsgSummary l) # post \<and> FClose \<notin> set pre
           \<and> SerClose \<notin> set pre \<and> FClose \<in> set post \<and> SerClose \<in> set post"
    by (rule session_order)
qed

theorem cancellation_observed_witness:
  "shutdown_requested (fresh True [])
   \<and> run_loop (fresh True []) [request] = (Some StopFlag, fresh True [], [])
   \<and> sig \<lparr>rd = Some 0x0F, sig = True, stop_file = False\<rparr>
   \<and> fst (run_loop (fresh False [1, 2, 3]) [\<lparr>rd = Some 0x0F, sig = True, stop_file = False\<rparr>, request])
       = Some StopUser
   \<and> fst (iteration (fresh False [1, 2, 3]) (marked (Some 0x01))) = Some StopUser
   \<and> stop_file (marked (Some 0x01))
   \<and> run_loop (fresh False (replicate 600 1)) [] = (None, fresh False (replicate 600 1), [])
   \<and> responses (snd (snd (run_loop (fresh False (replicate 600 1))
        [marked (Some 0x0F), marked (Some 0x0F), marked (Some 0x0F), marked (Some 0x0F),
         marked (Some 0x0F), marked (Some 0x0F), marked (Some 0x0F), marked (Some 0x0F),
         marked (Some 0x0F), marked (Some 0x0F)]))) = 10
   \<and> fst (run_loop (fresh False (replicate 600 1))
        [marked (Some 0x0F), marked (Some 0x0F), marked (Some 0x0F), marked (Some 0x0F),
         marked (Some 0x0F), marked (Some 0x0F), marked (Some 0x0F), marked (Some 0x0F),
         marked (Some 0x0F), marked (Some 0x0F)]) = Some StopUser
   \<and> fst (run_playback \<lparr>serial_opens = True, ping_reply = Some 0xFF, sig_early = True,
                          file_open = Some [], loop_events = [], wait_events = [],
                          reset_opens = True\<rparr> (Some ''movie.r08'')) = Ended StopFlag"
proof -
  let ?sa = "fresh True []" and ?s = "fresh False [1, 2, 3]"
  let ?e = "\<lparr>rd = Some 0x0F, sig = True, stop_file = False\<rparr>" and ?e' = "marked (Some 0x01)"
  let ?en = "\<lparr>serial_opens = True, ping_reply = Some 0xFF, sig_early = True,
              file_open = Some [], loop_events = [], wait_events = [], reset_opens = True\<rparr>"
  let ?sb = "fresh False (replicate 600 1)"
  let ?es2 = "[marked (Some 0x0F), marked (Some 0x0F), marked (Some 0x0F), marked (Some 0x0F),
         marked (Some 0x0F), marked (Some 0x0F), marked (Some 0x0F), marked (Some 0x0F),
         marked (Some 0x0F), marked (Some 0x0F)]"
  note T = cancellation_observed[where sa = ?sa and es = "[request]" and s = ?s and e = ?e
      and e' = ?e' and s' = "fst (snd (iteration ?s ?e'))" and tr = "snd (snd (iteration ?s ?e'))"
      and fl = False and bytes = "replicate 600 1" and ?es1.0 = "[]" and sb = ?sb and ?tr1.0 = "[]"
      and ?es2.0 = ?es2 and qb = "fst (run_loop ?sb ?es2)" and tb = "fst (snd (run_loop ?sb ?es2))"
      and ?tr2.0 = "snd (snd (run_loop ?sb ?es2))"
      and en = ?en and p = "Some ''movie.r08''" and r = StopFlag
      and trace = "snd (run_playback ?en (Some ''movie.r08''))"]
  have w1: "shutdown_requested ?sa" by (simp add: fresh_def)
  from T w1 have w2: "run_loop ?sa [request] = (Some StopFlag, ?sa, [])" by blast
  have b: "\<not> shutdown_requested ?s" "\<not> sig ?e'" by (simp_all add: fresh_def marked_def)
  have w3: "sig ?e" by simp
  have c: "fst (run_loop ?s [?e]) = Some StopUser" by (simp add: eval_defs)
  from T b(1) w3 have "run_loop ?s [?e, request] = run_loop ?s [?e]" by blast
  with c have w4: "fst (run_loop ?s [?e, request]) = Some StopUser" by simp
  have d: "iteration ?s ?e' = (Some StopUser, fst (snd (iteration ?s ?e')), snd (snd (iteration ?s ?e')))"
    by (simp add: eval_defs marked_def)
  then have w5: "fst (iteration ?s ?e') = Some StopUser" by (metis fst_conv)
  from T b d have w6: "stop_file ?e'" by blast
  have w7: "run_loop ?sb [] = (None, ?sb, [])" by (simp add: fresh_def)
  have g: "\<forall>x\<in>set ?es2. stop_file x" by (simp add: marked_def)
  have w8: "responses (snd (snd (run_loop ?sb ?es2))) = 10"
    by (simp add: eval_defs marked_def)
  have i: "run_loop ?sb ?es2 = (fst (run_loop ?sb ?es2), fst (snd (run_loop ?sb ?es2)),
                                 snd (snd (run_loop ?sb ?es2)))" by simp
  from T w7 g i w8 have w9: "fst (run_loop ?sb ?es2) = Some StopUser" by blast
  have w10: "fst (run_playback ?en (Some ''movie.r08'')) = Ended StopFlag"
    by (simp add: eval_defs)
  show ?thesis
    by (intro conjI) (rule w1 w2 w3 w4 w5 w6 w7 w8 w9 w10)+
qed

text \<open>
  The stop file exists during all thirteen passes of this session and is never looked
  at: \<open>latches\<close> is 30 after the first pass, and a timeout skips the check. The session
  ends with a device timeout, and its summary comes before \<open>FClose\<close> and \<open>SerClose\<close>.
\<close>

theorem marker_ignored_while_silent:
  "run_playback
     \<lparr>serial_opens = True, ping_reply = Some 0xFF, sig_early = False,
      file_open = Some (replicate 60 1),
      loop_events = [marked (Some 0x0F), marked (Some 0x01),
                     marked None, marked None, marked None, marked None, marked None, marked None,
                     marked None, marked None, marked None, marked None, marked None],
      wait_events = [\<lparr>key = None, joy = Some JStop, flag = False\<rparr>],
      reset_opens = True\<rparr> (Some ''movie.r08'')
   = (Ended StopTimeout,
      [SerOpen, SerWrite [0xFF], SerRead (Some 0xFF), Print MsgConnected, FOpen,
       Print (MsgFileOpened 60), SerWrite [0x00], SerWrite [0x01, 0x01, 0x02, 0x01, 0x00, 0x01, 0x00],
       SerRead (Some 0x0F), FRead 60 (replicate 60 1), SerWrite (0x0F # replicate 60 1),
       SerRead (Some 0x01), Print (MsgUnexpected 0x01),
       SerRead None, SerRead None, SerRead None, SerRead None, SerRead None, SerRead None,
       SerRead None, SerRead None, SerRead None, SerRead None, SerRead None,
       Print (MsgStoppedTimeout 30),
       Print (MsgSummary 30), FClose, Print MsgTransmissionComplete,
       SerWrite [0x00], SerClose, SerOpen, SerWrite [0x00], SerClose, Print MsgDeviceReset,
       Print MsgShutdownComplete])
   \<and> session_state StopTimeout \<noteq> Interrupted"
  by (simp add: eval_defs marked_def)

text \<open>
  C7. After the child has exited, the menu removes the stop file if it is there and does
  not reset the device itself. The child calls \<open>_reset_cy8ckit_device\<close> once when it
  returns at the end (exit code 0) and not at all when it returns early (exit codes 1,
  2 and 3) or has not returned.
\<close>

theorem reset_by_child_once:
  "(launch_error v = None \<and> play_selected v = Some tr \<longrightarrow>
      reset_invocations tr = 0
      \<and> (stop_left v \<longrightarrow> (\<exists>pre. tr = pre @ [RemoveStop, Draw] \<and> WaitExit \<in> set pre)))
   \<and> reset_invocations (snd (run_playback en p)) =
       (if exit_code (fst (run_playback en p)) = Some 0 then 1 else 0)"
  using supervisor_no_reset[of v tr] supervisor_removes_marker[of v tr] child_resets[of en p]
  by blast

theorem reset_by_child_once_witness:
  "launch_error \<lparr>stale_stop = False, launch_error = None,
                  mon_events = [\<lparr>exited = False, mkey = None, mjoy = Some JStop, mflag = False\<rparr>],
                  gone_after_terminate = True, wait_ok = True, stop_left = True,
                  sup_reset_opens = True\<rparr> = None
   \<and> play_selected \<lparr>stale_stop = False, launch_error = None,
                  mon_events = [\<lparr>exited = False, mkey = None, mjoy = Some JStop, mflag = False\<rparr>],
                  gone_after_terminate = True, wait_ok = True, stop_left = True,
                  sup_reset_opens = True\<rparr>
       = Some [Launch, TouchStop, SendSigint, Terminate, WaitExit, RemoveStop, Draw]
   \<and> reset_invocations [Launch, TouchStop, SendSigint, Terminate, WaitExit, RemoveStop, Draw] = 0
   \<and> reset_invocations (snd (run_playback
        \<lparr>serial_opens = True, ping_reply = Some 0xFF, sig_early = True, file_open = Some [],
         loop_events = [], wait_events = [], reset_opens = True\<rparr> (Some ''movie.r08''))) = 1"
proof -
  let ?v = "\<lparr>stale_stop = False, launch_error = None,
                  mon_events = [\<lparr>exited = False, mkey = None, mjoy = Some JStop, mflag = False\<rparr>],
                  gone_after_terminate = True, wait_ok = True, stop_left = True,
                  sup_reset_opens = True\<rparr>"
  let ?en = "\<lparr>serial_opens = True, ping_reply = Some 0xFF, sig_early = True, file_open = Some [],
         loop_events = [], wait_events = [], reset_opens = True\<rparr>"
  have a: "play_selected ?v = Some [Launch, TouchStop, SendSigint, Terminate, WaitExit, RemoveStop, Draw]"
    by (simp add: play_selected_def)
  have b: "exit_code (fst (run_playback ?en (Some ''movie.r08''))) = Some 0"
    by (simp add: eval_defs)
  from reset_by_child_once[of ?v "[Launch, TouchStop, SendSigint, Terminate, WaitExit, RemoveStop, Draw]"
      ?en "Some ''movie.r08''"] a b
  show ?thesis by simp
qed

text \<open>
  A handshake answered with \<open>0x00\<close>: the child returns 2, the menu sees it gone, and the
  device is not reset by either.
\<close>

theorem no_reset_after_failed_handshake:
  "run_playback \<lparr>serial_opens = True, ping_reply = Some 0x00, sig_early = False,
                 file_open = Some [], loop_events = [], wait_events = [], reset_opens = True\<rparr>
                (Some ''movie.r08'')
     = (NotReady (Some 0x00),
        [SerOpen, SerWrite [0xFF], SerRead (Some 0x00), Print (MsgNotReady (Some 0x00))])
   \<and> play_selected \<lparr>stale_stop = False, launch_error = None,
                    mon_events = [\<lparr>exited = True, mkey = None, mjoy = None, mflag = False\<rparr>],
                    gone_after_terminate = True, wait_ok = True, stop_left = False,
                    sup_reset_opens = True\<rparr>
     = Some [Launch, WaitExit, Draw]
   \<and> reset_invocations ([SerOpen, SerWrite [0xFF], SerRead (Some 0x00), Print (MsgNotReady (Some 0x00))]
                         @ [Launch, WaitExit, Draw]) = 0"
  by (simp add: run_playback_def play_selected_def reset_invocations_def)

end
